theory Spec2Isabelle
  imports Main "HOL-Library.AList"
begin

section \<open>JavaScript values and outcomes\<close>

text \<open>
  The module \<^verbatim>\<open>Alerter.js\<close> keeps timestamps (integers, milliseconds since the epoch) in
  arrays and reads them by index. A read outside the array yields \<^verbatim>\<open>undefined\<close>, so an
  indexed read and every value derived from one is a \<open>jsval\<close>.
\<close>

datatype jsval = Undefined | Num int

text \<open>Truthiness as used by \<^verbatim>\<open>if (x)\<close>: \<^verbatim>\<open>undefined\<close> and \<^verbatim>\<open>0\<close> are falsy.\<close>

fun truthy :: "jsval \<Rightarrow> bool" where
  "truthy Undefined = False"
| "truthy (Num n) = (n \<noteq> 0)"

text \<open>
  Relational operators convert \<^verbatim>\<open>undefined\<close> to \<^verbatim>\<open>NaN\<close>, and every comparison with
  \<^verbatim>\<open>NaN\<close> is false.
\<close>

fun js_le :: "jsval \<Rightarrow> jsval \<Rightarrow> bool" where
  "js_le (Num a) (Num b) = (a \<le> b)"
| "js_le _ _ = False"

fun js_lt :: "jsval \<Rightarrow> jsval \<Rightarrow> bool" where
  "js_lt (Num a) (Num b) = (a < b)"
| "js_lt _ _ = False"

fun js_gt :: "jsval \<Rightarrow> jsval \<Rightarrow> bool" where
  "js_gt (Num a) (Num b) = (a > b)"
| "js_gt _ _ = False"

text \<open>\<^verbatim>\<open>timestamps[i]\<close>: the element, or \<^verbatim>\<open>undefined\<close> when \<open>i\<close> is not an index of the array.\<close>

definition js_index :: "int list \<Rightarrow> int \<Rightarrow> jsval" where
  "js_index ts i = (if 0 \<le> i \<and> i < int (length ts) then Num (ts ! nat i) else Undefined)"

section \<open>Range index: \<^verbatim>\<open>_find_bound\<close>\<close>

text \<open>
  The backward scan over duplicates, \<^verbatim>\<open>while (timestamps[middle - 1] === target) middle--\<close>.
  Strict equality holds between two \<^verbatim>\<open>undefined\<close>, so with an undefined target the scan
  can run below index 0 for ever; not returning is the value \<open>None\<close>.
\<close>

partial_function (option) scan_back :: "jsval \<Rightarrow> int list \<Rightarrow> int \<Rightarrow> int option" where
  "scan_back target ts middle =
     (if js_index ts (middle - 1) = target then scan_back target ts (middle - 1)
      else Some middle)"

declare scan_back.simps [code]

text \<open>
  The body of \<^verbatim>\<open>_find_bound(target, timestamps, left, right)\<close> once \<open>left\<close> and \<open>right\<close> are
  numbers. The result \<open>Some Undefined\<close> is the fall off the end of the function body
  (no \<^verbatim>\<open>return\<close> reached).
\<close>

partial_function (option) find_bound_from :: "jsval \<Rightarrow> int list \<Rightarrow> int \<Rightarrow> int \<Rightarrow> jsval option" where
  "find_bound_from target ts left right =
     (if js_le target (js_index ts 0) then Some (Num 0)
      else if js_gt target (js_index ts (int (length ts) - 1)) then Some (Num (int (length ts)))
      else if left = right then Some (Num left)
      else
        let middle = (right - left) div 2 + left in
        if js_index ts middle = target then map_option Num (scan_back target ts middle)
        else if js_gt target (js_index ts middle) then find_bound_from target ts (middle + 1) right
        else if js_lt target (js_index ts middle) then find_bound_from target ts left middle
        else Some Undefined)"

declare find_bound_from.simps [code]

text \<open>The call with the default bounds \<open>left = 0\<close> and \<open>right = timestamps.length - 1\<close>.\<close>

definition find_bound :: "jsval \<Rightarrow> int list \<Rightarrow> jsval option" where
  "find_bound target ts = find_bound_from target ts 0 (int (length ts) - 1)"

section \<open>Data model\<close>

text \<open>
  An exception of the JavaScript run-time or of the file system, and the three ways a call
  can end: it returns, it throws, or it never returns.
\<close>

datatype js_error = TypeError | ReferenceError string | AlerterError string | FsError string

datatype 'a outcome = Returns 'a | Throws js_error | Diverges

fun and_then :: "'a outcome \<Rightarrow> ('a \<Rightarrow> 'b outcome) \<Rightarrow> 'b outcome" where
  "and_then (Returns x) f = f x"
| "and_then (Throws e) f = Throws e"
| "and_then Diverges f = Diverges"

text \<open>
  One of the three timeframes of \<^verbatim>\<open>_blank_settings\<close>. The fields \<open>threshold\<close>, \<open>cooldown\<close>
  and \<open>last_alert\<close> start as \<^verbatim>\<open>undefined\<close> and hold integers once set. (A \<^verbatim>\<open>null\<close> read
  from the state file is falsy like \<^verbatim>\<open>undefined\<close>, the one way \<open>last_alert\<close> is tested
  before it is compared.)
\<close>

record timespan_settings =
  enabled :: bool
  threshold :: jsval
  cooldown :: jsval
  last_alert :: jsval

datatype timespan = Minute | Hour | Day

fun timespan_name :: "timespan \<Rightarrow> string" where
  "timespan_name Minute = ''minute''"
| "timespan_name Hour = ''hour''"
| "timespan_name Day = ''day''"

text \<open>
  The write stream of a log file belongs to Node, not to the module. All the module sees
  of it is the boolean each \<^verbatim>\<open>write\<close> returns, so a stream is modelled by the chunks it has
  accepted and the answers its coming writes will give (\<open>True\<close> once these are used up).
\<close>

datatype wstream = Stream (written: "string list") (replies: "bool list")

fun stream_write :: "wstream \<Rightarrow> string \<Rightarrow> bool \<times> wstream" where
  "stream_write (Stream w []) chunk = (True, Stream (w @ [chunk]) [])"
| "stream_write (Stream w (b # bs)) chunk = (b, Stream (w @ [chunk]) bs)"

text \<open>
  The settings object of one error type. \<open>log = None\<close> is the initial \<^verbatim>\<open>false\<close>;
  \<open>stream = None\<close> is \<^verbatim>\<open>undefined\<close>. The callback \<^verbatim>\<open>act\<close> is not stored: its call is recorded
  as an effect.
\<close>

record error_settings =
  watch :: bool
  log :: "string option"
  stream :: "wstream option"
  draining :: bool
  minute :: timespan_settings
  hour :: timespan_settings
  day :: timespan_settings

text \<open>What the module does to the outside world, in the order it does it.\<close>

datatype effect =
    Mail string string
  | SaveState "(string \<times> jsval \<times> jsval \<times> jsval) list"
  | Act string string
  | StartCallback "js_error option"

text \<open>
  The \<^verbatim>\<open>Alerter\<close> instance. The three objects keyed by error type are association lists
  in insertion order, the order in which \<^verbatim>\<open>for ... in\<close> visits keys that are not
  array indices; \<^verbatim>\<open>obj[k]\<close> is \<open>map_of\<close>, \<^verbatim>\<open>obj[k] = v\<close> is \<open>AList.update\<close> and
  \<^verbatim>\<open>delete obj[k]\<close> is \<open>AList.delete\<close>. Properties inherited from \<^verbatim>\<open>Object.prototype\<close> are
  not modelled. \<open>trace\<close> records the effects on the outside world.
\<close>

record alerter =
  root :: "string option"
  started :: bool
  ready :: bool
  timestamps :: "(string \<times> int list) list"
  queued :: "(string \<times> int list) list"
  settings :: "(string \<times> error_settings) list"
  trace :: "effect list"

definition ALL_KEY :: string where
  "ALL_KEY = ''_all''"

definition DEFAULT_KEY :: string where
  "DEFAULT_KEY = ''_default''"

definition blank_timespan :: timespan_settings where
  "blank_timespan =
     \<lparr>enabled = False, threshold = Undefined, cooldown = Undefined, last_alert = Undefined\<rparr>"

definition blank_settings :: error_settings where
  "blank_settings =
     \<lparr>watch = True, log = None, stream = None, draining = False,
      minute = blank_timespan, hour = blank_timespan, day = blank_timespan\<rparr>"

text \<open>The constructor.\<close>

definition new_alerter :: alerter where
  "new_alerter =
     \<lparr>root = None, started = False, ready = False,
      timestamps = [(ALL_KEY, [])], queued = [(ALL_KEY, [])],
      settings = [(ALL_KEY, blank_settings), (DEFAULT_KEY, blank_settings)],
      trace = []\<rparr>"

text \<open>\<^verbatim>\<open>this._timestamps[error_type] || []\<close> and \<^verbatim>\<open>this._queued[error_type] || []\<close>.\<close>

definition saved_of :: "alerter \<Rightarrow> string \<Rightarrow> int list" where
  "saved_of s error_type = (case map_of (timestamps s) error_type of None \<Rightarrow> [] | Some l \<Rightarrow> l)"

definition queued_of :: "alerter \<Rightarrow> string \<Rightarrow> int list" where
  "queued_of s error_type = (case map_of (queued s) error_type of None \<Rightarrow> [] | Some l \<Rightarrow> l)"

text \<open>The logical occurrence history of an error type: \<^verbatim>\<open>saved.concat(queued)\<close>.\<close>

definition history :: "alerter \<Rightarrow> string \<Rightarrow> int list" where
  "history s error_type = saved_of s error_type @ queued_of s error_type"

fun get_timespan :: "timespan \<Rightarrow> error_settings \<Rightarrow> timespan_settings" where
  "get_timespan Minute es = minute es"
| "get_timespan Hour es = hour es"
| "get_timespan Day es = day es"

fun set_timespan :: "timespan \<Rightarrow> timespan_settings \<Rightarrow> error_settings \<Rightarrow> error_settings" where
  "set_timespan Minute w es = es\<lparr>minute := w\<rparr>"
| "set_timespan Hour w es = es\<lparr>hour := w\<rparr>"
| "set_timespan Day w es = es\<lparr>day := w\<rparr>"

text \<open>\<^verbatim>\<open>!error_settings.log\<close> is false for a non-empty path only.\<close>

definition log_set :: "error_settings \<Rightarrow> bool" where
  "log_set es = (case log es of None \<Rightarrow> False | Some path \<Rightarrow> path \<noteq> [])"

section \<open>Occurrence store: \<^verbatim>\<open>_find_range\<close>\<close>

record range =
  r_from :: jsval
  r_to :: jsval

text \<open>
  Line 486 passes \<^verbatim>\<open>range.from\<close> to the second search as well; the model does the same.
\<close>

definition find_range :: "string \<Rightarrow> range \<Rightarrow> alerter \<Rightarrow> range option" where
  "find_range error_type rng s =
     (let ts = saved_of s error_type @ queued_of s error_type;
          results = \<lparr>r_from = Num 0, r_to = Num (int (length ts) - 1)\<rparr>
      in case (if truthy (r_from rng)
               then map_option (\<lambda>b. results\<lparr>r_from := b\<rparr>) (find_bound (r_from rng) ts)
               else Some results) of
           None \<Rightarrow> None
         | Some results1 \<Rightarrow>
             if truthy (r_to rng) then
               (case find_bound (r_from rng) ts of
                  None \<Rightarrow> None
                | Some b \<Rightarrow>
                    Some (results1\<lparr>r_to :=
                      (if b = Num (int (length ts)) then Num (int (length ts) - 1) else b)\<rparr>))
             else Some results1)"

section \<open>Persistence: \<^verbatim>\<open>_write\<close> and \<^verbatim>\<open>_flush_queued\<close>\<close>

text \<open>Decimal text of an integer timestamp, and \<^verbatim>\<open>data.join("\n") + "\n"\<close>.\<close>

fun digits :: "nat \<Rightarrow> string" where
  "digits n =
     (if n < 10 then [''0123456789'' ! n]
      else digits (n div 10) @ [''0123456789'' ! (n mod 10)])"

declare digits.simps [simp del]

definition number_string :: "int \<Rightarrow> string" where
  "number_string i = (if i < 0 then CHR ''-'' # digits (nat (- i)) else digits (nat i))"

fun js_join :: "string \<Rightarrow> string list \<Rightarrow> string" where
  "js_join sep [] = []"
| "js_join sep [x] = x"
| "js_join sep (x # y # ys) = x @ sep @ js_join sep (y # ys)"

definition join_lines :: "int list \<Rightarrow> string" where
  "join_lines data = js_join [CHR 0x0A] (map number_string data) @ [CHR 0x0A]"

text \<open>
  \<^verbatim>\<open>_write(error_type, data)\<close> for an array \<open>data\<close>, the one shape its caller passes. Reading
  \<^verbatim>\<open>.stream\<close> of missing settings throws. (\<open>write\<close> is a keyword of Isabelle, hence the name.)
\<close>

definition write_log :: "string \<Rightarrow> int list \<Rightarrow> alerter \<Rightarrow> (bool \<times> alerter) outcome" where
  "write_log error_type data s =
     (case map_of (settings s) error_type of
        None \<Rightarrow> Throws TypeError
      | Some es \<Rightarrow>
          if \<not> log_set es then Returns (True, s)
          else if draining es then Returns (False, s)
          else
            (case stream es of
               None \<Rightarrow> Returns (False, s)
             | Some strm \<Rightarrow>
                 let (accepted, strm') = stream_write strm (join_lines data);
                     es' = es\<lparr>stream := Some strm',
                              draining := (if \<not> accepted then True else draining es)\<rparr>
                 in Returns (True, s\<lparr>settings := AList.update error_type es' (settings s)\<rparr>)))"

text \<open>One round of the loop of \<^verbatim>\<open>_flush_queued\<close>, and the loop over the keys of \<^verbatim>\<open>_queued\<close>.\<close>

definition flush_one :: "string \<Rightarrow> alerter \<Rightarrow> alerter outcome" where
  "flush_one error_type s =
     and_then (write_log error_type (queued_of s error_type) s) (\<lambda>(ok, s1).
       if ok then
         Returns (s1\<lparr>timestamps :=
                       AList.update error_type
                         (saved_of s1 error_type @ queued_of s1 error_type) (timestamps s1),
                     queued := AList.delete error_type (queued s1)\<rparr>)
       else Returns s1)"

fun flush_keys :: "string list \<Rightarrow> alerter \<Rightarrow> alerter outcome" where
  "flush_keys [] s = Returns s"
| "flush_keys (error_type # rest) s = and_then (flush_one error_type s) (flush_keys rest)"

definition flush_queued :: "alerter \<Rightarrow> alerter outcome" where
  "flush_queued s = flush_keys (map fst (queued s)) s"

section \<open>Threshold evaluation: \<^verbatim>\<open>_check\<close>\<close>

fun window :: "timespan \<Rightarrow> int" where
  "window Minute = 60000"
| "window Hour = 3600000"
| "window Day = 86400000"

text \<open>
  \<^verbatim>\<open>moment(current_time).subtract(moment.duration(check.cooldown, 'minutes'))\<close>, read back
  as a number by the comparison: a duration given in minutes is held in milliseconds, so the
  subtraction is exact.
\<close>

fun cooldown_timestamp :: "int \<Rightarrow> jsval \<Rightarrow> jsval" where
  "cooldown_timestamp current_time (Num c) = Num (current_time - c * 60000)"
| "cooldown_timestamp current_time Undefined = Undefined"

fun js_ge :: "jsval \<Rightarrow> jsval \<Rightarrow> bool" where
  "js_ge (Num a) (Num b) = (a \<ge> b)"
| "js_ge _ _ = False"

text \<open>Lines 356 to 362: the test that makes the loop \<^verbatim>\<open>continue\<close> during a cooldown.\<close>

definition in_cooldown :: "timespan_settings \<Rightarrow> int \<Rightarrow> bool" where
  "in_cooldown chk current_time =
     (truthy (last_alert chk) \<and> cooldown chk \<noteq> Undefined \<and>
      js_ge (last_alert chk) (cooldown_timestamp current_time (cooldown chk)))"

text \<open>
  \<^verbatim>\<open>range.to - range.from + 1\<close> is \<^verbatim>\<open>NaN\<close> (here \<open>None\<close>) when a bound is undefined, and
  \<^verbatim>\<open>error_count >= check.threshold\<close> is false for \<^verbatim>\<open>NaN\<close> and for an undefined threshold.
\<close>

fun count_between :: "jsval \<Rightarrow> jsval \<Rightarrow> int option" where
  "count_between (Num t) (Num f) = Some (t - f + 1)"
| "count_between _ _ = None"

fun reaches :: "int option \<Rightarrow> jsval \<Rightarrow> bool" where
  "reaches (Some n) (Num th) = (n \<ge> th)"
| "reaches _ _ = False"

text \<open>
  \<^verbatim>\<open>_save\<close> writes the last alerts of every error type to the state file, and \<^verbatim>\<open>_alert\<close>
  sends the mail and saves. Both act on the outside world only; a failure of the
  file system or of the mailer is outside this model.
\<close>

definition save :: "alerter \<Rightarrow> alerter" where
  "save s =
     s\<lparr>trace := trace s @
        [SaveState (map (\<lambda>(error_type, es).
           (error_type, last_alert (minute es), last_alert (hour es), last_alert (day es)))
           (settings s))]\<rparr>"

definition alert :: "string \<Rightarrow> string \<Rightarrow> alerter \<Rightarrow> alerter" where
  "alert error_type trigger_name s = save (s\<lparr>trace := trace s @ [Mail error_type trigger_name]\<rparr>)"

text \<open>Lines 364 to 375: count the occurrences inside the window and alert.\<close>

definition check_threshold :: "string \<Rightarrow> int \<Rightarrow> timespan \<Rightarrow> error_settings \<Rightarrow> alerter \<Rightarrow> alerter outcome" where
  "check_threshold error_type current_time check_key es s =
     (case find_range error_type
             \<lparr>r_from = Num (current_time - window check_key), r_to = Undefined\<rparr> s of
        None \<Rightarrow> Diverges
      | Some rng \<Rightarrow>
          if reaches (count_between (r_to rng) (r_from rng)) (threshold (get_timespan check_key es))
          then
            let chk' = (get_timespan check_key es)\<lparr>last_alert := Num current_time\<rparr>;
                s1 = s\<lparr>settings :=
                        AList.update error_type (set_timespan check_key chk' es) (settings s)\<rparr>;
                s2 = alert error_type (timespan_name check_key) s1
            in Returns (s2\<lparr>trace := trace s2 @ [Act error_type (timespan_name check_key)]\<rparr>)
          else Returns s)"

text \<open>One round of the loop of \<^verbatim>\<open>_check\<close>.\<close>

definition check_one :: "string \<Rightarrow> int \<Rightarrow> timespan \<Rightarrow> alerter \<Rightarrow> alerter outcome" where
  "check_one error_type current_time check_key s =
     (case map_of (settings s) error_type of
        None \<Rightarrow> Throws TypeError
      | Some es \<Rightarrow>
          if \<not> enabled (get_timespan check_key es) then Returns s
          else if in_cooldown (get_timespan check_key es) current_time then Returns s
          else check_threshold error_type current_time check_key es s)"

fun check_keys :: "timespan list \<Rightarrow> string \<Rightarrow> int \<Rightarrow> alerter \<Rightarrow> alerter outcome" where
  "check_keys [] error_type current_time s = Returns s"
| "check_keys (check_key # rest) error_type current_time s =
     and_then (check_one error_type current_time check_key s) (check_keys rest error_type current_time)"

definition check :: "string \<Rightarrow> int \<Rightarrow> alerter \<Rightarrow> alerter outcome" where
  "check error_type current_time s =
     (case map_of (settings s) error_type of
        None \<Rightarrow> Throws TypeError
      | Some es \<Rightarrow> check_keys [Minute, Hour, Day] error_type current_time s)"

section \<open>Ingestion: \<^verbatim>\<open>tell\<close>, \<^verbatim>\<open>_tell\<close> and \<^verbatim>\<open>_key\<close>\<close>

text \<open>
  What a caller can pass to \<^verbatim>\<open>tell\<close> and \<^verbatim>\<open>one\<close>: an instance of \<^verbatim>\<open>Error\<close> or of a subclass,
  with the name of its constructor, or a value of another type.
\<close>

datatype input =
    ErrorObject string
  | StringValue string
  | NumberValue int
  | BoolValue bool
  | PlainObject
  | NullValue
  | UndefinedValue

fun input_truthy :: "input \<Rightarrow> bool" where
  "input_truthy (ErrorObject name) = True"
| "input_truthy (StringValue str) = (str \<noteq> [])"
| "input_truthy (NumberValue n) = (n \<noteq> 0)"
| "input_truthy (BoolValue b) = b"
| "input_truthy PlainObject = True"
| "input_truthy NullValue = False"
| "input_truthy UndefinedValue = False"

fun instanceof_Error :: "input \<Rightarrow> bool" where
  "instanceof_Error (ErrorObject name) = True"
| "instanceof_Error _ = False"

fun key :: "input \<Rightarrow> string" where
  "key (StringValue str) = str"
| "key (ErrorObject name) = name"
| "key _ = DEFAULT_KEY"

text \<open>\<^verbatim>\<open>_tell(key, current_time)\<close>: queue the timestamp, flush, check.\<close>

definition tell_internal :: "string \<Rightarrow> int \<Rightarrow> alerter \<Rightarrow> alerter outcome" where
  "tell_internal k current_time s =
     (let s1 = (case map_of (queued s) k of
                  Some q \<Rightarrow> s\<lparr>queued := AList.update k (q @ [current_time]) (queued s)\<rparr>
                | None \<Rightarrow> s\<lparr>queued := AList.update k [current_time] (queued s)\<rparr>)
      in and_then (flush_queued s1) (check k current_time))"

text \<open>
  \<^verbatim>\<open>tell(error)\<close>, with the reading of \<^verbatim>\<open>Date.now()\<close> as a parameter. Reading \<^verbatim>\<open>.watch\<close> of
  settings that do not exist throws a \<^verbatim>\<open>TypeError\<close>.
\<close>

definition tell :: "input \<Rightarrow> int \<Rightarrow> alerter \<Rightarrow> alerter outcome" where
  "tell error current_time s =
     (if \<not> input_truthy error \<or> \<not> instanceof_Error error then Returns s
      else
        and_then
          (case map_of (settings s) ALL_KEY of
             None \<Rightarrow> Throws TypeError
           | Some es \<Rightarrow> if watch es then tell_internal ALL_KEY current_time s else Returns s)
          (\<lambda>s1.
             case map_of (settings s1) (key error) of
               None \<Rightarrow> Throws TypeError
             | Some es \<Rightarrow>
                 if watch es then tell_internal (key error) current_time s1 else Returns s1))"

section \<open>Configuration: \<^verbatim>\<open>_one\<close> and its setters\<close>

text \<open>
  \<^verbatim>\<open>_one(error)\<close> creates the settings of a key it has not seen; the setters of the object
  it returns then change the settings of that key.
\<close>

definition one :: "input \<Rightarrow> alerter \<Rightarrow> alerter" where
  "one error s =
     (if map_of (settings s) (key error) = None
      then s\<lparr>settings := AList.update (key error) blank_settings (settings s)\<rparr>
      else s)"

definition edit_settings :: "string \<Rightarrow> (error_settings \<Rightarrow> error_settings) \<Rightarrow> alerter \<Rightarrow> alerter" where
  "edit_settings k f s =
     (case map_of (settings s) k of
        None \<Rightarrow> s
      | Some es \<Rightarrow> s\<lparr>settings := AList.update k (f es) (settings s)\<rparr>)"

definition edit_timespan :: "string \<Rightarrow> timespan \<Rightarrow> (timespan_settings \<Rightarrow> timespan_settings) \<Rightarrow> alerter \<Rightarrow> alerter" where
  "edit_timespan k timespan_key f s =
     edit_settings k (\<lambda>es. set_timespan timespan_key (f (get_timespan timespan_key es)) es) s"

definition set_on :: "string \<Rightarrow> timespan \<Rightarrow> alerter \<Rightarrow> alerter" where
  "set_on k timespan_key = edit_timespan k timespan_key (\<lambda>w. w\<lparr>enabled := True\<rparr>)"

definition set_threshold :: "string \<Rightarrow> timespan \<Rightarrow> int \<Rightarrow> alerter \<Rightarrow> alerter" where
  "set_threshold k timespan_key n = edit_timespan k timespan_key (\<lambda>w. w\<lparr>threshold := Num n\<rparr>)"

definition set_cooldown :: "string \<Rightarrow> timespan \<Rightarrow> int \<Rightarrow> alerter \<Rightarrow> alerter" where
  "set_cooldown k timespan_key n = edit_timespan k timespan_key (\<lambda>w. w\<lparr>cooldown := Num n\<rparr>)"

definition set_log :: "string \<Rightarrow> string \<Rightarrow> alerter \<Rightarrow> alerter" where
  "set_log k path = edit_settings k (\<lambda>es. es\<lparr>log := Some path\<rparr>)"

text \<open>\<^verbatim>\<open>log(true)\<close>: the default path under the root; an unset root prints as \<^verbatim>\<open>undefined\<close>.\<close>

definition set_log_default :: "string \<Rightarrow> alerter \<Rightarrow> alerter" where
  "set_log_default k s =
     set_log k ((case root s of None \<Rightarrow> ''undefined'' | Some path \<Rightarrow> path) @ ''/'' @ k @ ''.log'') s"

section \<open>Startup recovery: \<^verbatim>\<open>start\<close> and its read callback\<close>

text \<open>
  \<^verbatim>\<open>new C(text)\<close> for an error class named in the module. \<^verbatim>\<open>AlerterError\<close> (lines 12 to 17)
  is the one class the module declares; evaluating a name bound nowhere throws a
  \<^verbatim>\<open>ReferenceError\<close>.
\<close>

definition js_new :: "string \<Rightarrow> string \<Rightarrow> js_error + js_error" where
  "js_new class_name text =
     (if class_name = ''AlerterError'' then Inr (AlerterError text)
      else Inl (ReferenceError class_name))"

text \<open>
  The variables that the closures of \<^verbatim>\<open>start\<close> share: the instant one day before the
  call, the counters of pending reads and opens, and the error flags.
\<close>

record recovery =
  targets :: "(string \<times> string) list"
  one_day_ago :: int
  reads_left :: int
  opens_left :: int
  read_error :: bool
  open_error :: bool
  state_loaded :: bool
  state_error :: bool

text \<open>
  \<^verbatim>\<open>start(callback)\<close>. The value of
  \<^verbatim>\<open>moment().subtract(moment.duration(1, 'days')).valueOf()\<close> is the parameter \<open>day_ago\<close>: the
  library takes one calendar day off the local time, which is 86 400 000 ms before the
  call unless the offset to UTC changes in between (then an hour less or more). The module
  only stores the value and compares timestamps with it. The reads that \<^verbatim>\<open>start\<close> issues
  complete later, each by a call of \<open>readFile_callback\<close>.
\<close>

definition start :: "int \<Rightarrow> alerter \<Rightarrow> (alerter \<times> recovery option) outcome" where
  "start day_ago s =
     (if started s then
        (case js_new ''AlerterErrror'' ''start: starting has already been initiated'' of
           Inl thrown \<Rightarrow> Throws thrown
         | Inr err \<Rightarrow> Returns (s\<lparr>trace := trace s @ [StartCallback (Some err)]\<rparr>, None))
      else
        let s1 = s\<lparr>started := True\<rparr>;
            tgts = concat (map (\<lambda>(error_type, es).
                     if \<not> watch es \<or> \<not> log_set es then []
                     else [(error_type, case log es of Some path \<Rightarrow> path | None \<Rightarrow> [])])
                     (settings s1))
        in Returns (s1,
             Some \<lparr>targets = tgts, one_day_ago = day_ago,
                   reads_left = int (length tgts), opens_left = int (length tgts),
                   read_error = False, open_error = False,
                   state_loaded = False, state_error = False\<rparr>))"

text \<open>\<^verbatim>\<open>data.split("\n")\<close>.\<close>

fun split_lines :: "string \<Rightarrow> string list" where
  "split_lines [] = [[]]"
| "split_lines (c # cs) =
     (if c = CHR 0x0A then [] # split_lines cs
      else (case split_lines cs of [] \<Rightarrow> [[c]] | l # ls \<Rightarrow> (c # l) # ls))"



text \<open>
  What \<^verbatim>\<open>_write\<close> returns for given settings, read off its three \<^verbatim>\<open>return\<close> statements:
  \<^verbatim>\<open>true\<close> without a log path, \<^verbatim>\<open>false\<close> while draining or without a stream, \<^verbatim>\<open>true\<close>
  after a write.
\<close>

definition accepts :: "error_settings \<Rightarrow> bool" where
  "accepts es = (if \<not> log_set es then True else if draining es \<or> stream es = None then False else True)"

section \<open>Example instances\<close>

text \<open>
  The configuration of the README:
  \<^verbatim>\<open>Alerter.one("i_care").minute().on().threshold(2).cooldown(60)\<close>.
\<close>

definition readme_config :: alerter where
  "readme_config =
     set_cooldown ''i_care'' Minute 60 (set_threshold ''i_care'' Minute 2
       (set_on ''i_care'' Minute (one (StringValue ''i_care'') new_alerter)))"

text \<open>
  An error type whose minute window (threshold 1, cooldown one minute) alerted at time 1000
  and that has occurred at 1000 and again at 61000.
\<close>

definition cooling_settings :: error_settings where
  "cooling_settings =
     blank_settings\<lparr>minute :=
       \<lparr>enabled = True, threshold = Num 1, cooldown = Num 1, last_alert = Num 1000\<rparr>\<rparr>"

definition cooling_down :: alerter where
  "cooling_down =
     new_alerter\<lparr>timestamps := [(ALL_KEY, []), (''i_care'', [1000, 61000])],
                 settings := [(ALL_KEY, blank_settings), (DEFAULT_KEY, blank_settings),
                              (''i_care'', cooling_settings)]\<rparr>"

text \<open>An error type whose minute window is switched on and has no threshold.\<close>

definition unset_settings :: error_settings where
  "unset_settings = blank_settings\<lparr>minute := blank_timespan\<lparr>enabled := True\<rparr>\<rparr>"

definition no_threshold :: alerter where
  "no_threshold =
     new_alerter\<lparr>timestamps := [(ALL_KEY, []), (''i_care'', [1000, 2000, 3000])],
                 settings := [(ALL_KEY, blank_settings), (DEFAULT_KEY, blank_settings),
                              (''i_care'', unset_settings)]\<rparr>"

text \<open>
  Two error types with queued timestamps: \<open>_all\<close> without a log, and \<open>E\<close> with a log path
  whose stream is not open yet, or open with a buffer that the next write fills.
\<close>

definition closed_log :: error_settings where
  "closed_log = blank_settings\<lparr>log := Some ''/tmp/e.log''\<rparr>"

definition open_log :: error_settings where
  "open_log = blank_settings\<lparr>log := Some ''/tmp/e.log'', stream := Some (Stream [] [False])\<rparr>"

definition two_queues :: "error_settings \<Rightarrow> alerter" where
  "two_queues es =
     new_alerter\<lparr>queued := [(ALL_KEY, [190, 200]), (''E'', [200])],
                 settings := [(ALL_KEY, blank_settings), (DEFAULT_KEY, blank_settings), (''E'', es)]\<rparr>"


definition parse_decimal :: "string \<Rightarrow> int option" where
  "parse_decimal line =
     (if line = [] \<or> (\<exists>c \<in> set line. c \<notin> set ''0123456789'') then None
      else Some (foldl (\<lambda>n c. 10 * n + (int (of_char c) - 48)) 0 line))"

section \<open>Termination of the searches for a numeric target\<close>

lemma scan_back_returns: "\<exists>m. scan_back (Num t) ts middle = Some m"
proof (induction "nat middle" arbitrary: middle rule: less_induct)
  case less
  show ?case
  proof (cases "js_index ts (middle - 1) = Num t")
    case True
    then have "0 \<le> middle - 1" by (auto simp: js_index_def split: if_splits)
    then have "nat (middle - 1) < nat middle" by simp
    from less [OF this] obtain m where "scan_back (Num t) ts (middle - 1) = Some m" by blast
    with True show ?thesis by (subst scan_back.simps) simp
  next
    case False
    then show ?thesis by (subst scan_back.simps) simp
  qed
qed

lemma find_bound_from_returns:
  "left \<le> right \<Longrightarrow> \<exists>v. find_bound_from (Num t) ts left right = Some v"
proof (induction "nat (right - left)" arbitrary: left right rule: less_induct)
  case less
  define middle where "middle = (right - left) div 2 + left"
  show ?case
  proof (cases "left = right")
    case True
    then show ?thesis by (subst find_bound_from.simps) simp
  next
    case False
    with less.prems have lt: "left < right" by simp
    then have m: "left \<le> middle" "middle < right" by (auto simp: middle_def)
    have up: "\<exists>v. find_bound_from (Num t) ts (middle + 1) right = Some v"
      using m lt by (intro less.hyps) auto
    have down: "\<exists>v. find_bound_from (Num t) ts left middle = Some v"
      using m lt by (intro less.hyps) auto
    obtain b where sb: "scan_back (Num t) ts middle = Some b"
      using scan_back_returns by blast
    show ?thesis
      using up down sb
      by (subst find_bound_from.simps) (auto simp: Let_def middle_def [symmetric])
  qed
qed

lemma find_bound_returns: "\<exists>v. find_bound (Num t) ts = Some v"
proof (cases "ts = []")
  case True
  then show ?thesis
    by (simp add: find_bound_def find_bound_from.simps js_index_def)
next
  case False
  then have "(0::int) \<le> int (length ts) - 1" by (cases ts) auto
  then show ?thesis unfolding find_bound_def by (rule find_bound_from_returns)
qed

lemma find_range_open_returns:
  "\<exists>rng. find_range k \<lparr>r_from = Num x, r_to = Undefined\<rparr> s = Some rng"
proof -
  obtain v where "find_bound (Num x) (saved_of s k @ queued_of s k) = Some v"
    using find_bound_returns by blast
  then show ?thesis by (simp add: find_range_def Let_def)
qed

section \<open>Ingestion\<close>

text \<open>
  Claim C1. \<^verbatim>\<open>tell\<close> is to take an error object (keyed by the name of its constructor) and
  a string (used as the key as it is), and to ignore every other input. On the code a
  string is ignored like the other inputs: the guard of \<^verbatim>\<open>tell\<close> returns for whatever is
  not an instance of \<^verbatim>\<open>Error\<close>, although \<^verbatim>\<open>_key\<close> would use the string as the key.
\<close>

theorem tell_ignores_string:
  "tell (StringValue str) current_time s = Returns s \<and> key (StringValue str) = str"
  by (simp add: tell_def)

theorem tell_ignores_string_witness:
  "tell (StringValue ''i_care'') 1000 readme_config = Returns readme_config"
  using tell_ignores_string [of "''i_care''" 1000 readme_config] by simp

section \<open>Cooldown\<close>

text \<open>
  Claim C3, as amended. For an enabled window with a cooldown of \<open>c\<close> minutes and a
  recorded (non-zero) last alert \<open>la\<close>, the round of \<^verbatim>\<open>_check\<close> at time \<open>t\<close> is skipped
  exactly when \<open>t - la \<le> c * 60000\<close>, the boundary included; otherwise the threshold is
  evaluated.
\<close>

theorem cooldown_includes_boundary:
  assumes "map_of (settings s) k = Some es"
    and "enabled (get_timespan wk es)"
    and "cooldown (get_timespan wk es) = Num c"
    and "last_alert (get_timespan wk es) = Num la"
    and "la \<noteq> 0"
  shows "in_cooldown (get_timespan wk es) t = (t - la \<le> c * 60000)
       \<and> check_one k t wk s =
           (if t - la \<le> c * 60000 then Returns s else check_threshold k t wk es s)"
  using assms by (auto simp: check_one_def in_cooldown_def)

lemma cooling_down_settings: "map_of (settings cooling_down) ''i_care'' = Some cooling_settings"
  by (simp add: cooling_down_def new_alerter_def ALL_KEY_def DEFAULT_KEY_def)

lemma cooling_settings_minute:
  "minute cooling_settings =
     \<lparr>enabled = True, threshold = Num 1, cooldown = Num 1, last_alert = Num 1000\<rparr>"
  by (simp add: cooling_settings_def blank_settings_def)

theorem cooldown_includes_boundary_witness:
  "in_cooldown (get_timespan Minute cooling_settings) 61000
   \<and> check_one ''i_care'' 61000 Minute cooling_down = Returns cooling_down"
  using cooldown_includes_boundary [OF cooling_down_settings, of Minute 1 1000 61000]
  by (simp add: cooling_settings_minute)

text \<open>
  The claim as stated is false on the boundary: 60000 ms after the alert, with a cooldown
  of one minute, \<open>current_time - last_alert < cooldown\<close> is false, yet the round is
  skipped, although the threshold is reached (the evaluation, had it run, would have
  alerted).
\<close>

theorem cooldown_boundary_counterexample:
  "\<not> (61000 - 1000 < (1::int) * 60000)
   \<and> check_one ''i_care'' 61000 Minute cooling_down = Returns cooling_down
   \<and> check_threshold ''i_care'' 61000 Minute cooling_settings cooling_down \<noteq> Returns cooling_down"
proof -
  have "check_one ''i_care'' 61000 Minute cooling_down = Returns cooling_down"
    by (simp add: check_one_def cooling_down_settings cooling_settings_minute in_cooldown_def)
  moreover have "find_range ''i_care'' \<lparr>r_from = Num 1000, r_to = Undefined\<rparr> cooling_down
      = Some \<lparr>r_from = Num 0, r_to = Num 1\<rparr>"
    by code_simp
  then have "\<exists>s'. check_threshold ''i_care'' 61000 Minute cooling_settings cooling_down = Returns s'
      \<and> trace s' \<noteq> trace cooling_down"
    by (simp add: check_threshold_def cooling_settings_minute alert_def save_def Let_def)
  then have "check_threshold ''i_care'' 61000 Minute cooling_settings cooling_down
      \<noteq> Returns cooling_down"
    by auto
  ultimately show ?thesis by simp
qed

section \<open>Range index and range queries\<close>

text \<open>
  Claim C5. With an upper bound, \<^verbatim>\<open>_find_range\<close> is to search for that upper bound. On the
  code the second search looks for \<^verbatim>\<open>range.from\<close> again: in the history 10, 20, 30 the range
  from 10 to 30 ends at index 0, where the lower bound of 30 is index 2.
\<close>

theorem find_range_searches_from_twice:
  "find_range ''E'' \<lparr>r_from = Num 10, r_to = Num 30\<rparr>
     (new_alerter\<lparr>timestamps := [(''E'', [10, 20, 30])]\<rparr>)
     = Some \<lparr>r_from = Num 0, r_to = Num 0\<rparr>
   \<and> find_bound (Num 30) [10, 20, 30] = Some (Num 2)"
  by code_simp

theorem find_range_searches_from_twice_witness:
  "map_option r_to (find_range ''E'' \<lparr>r_from = Num 10, r_to = Num 30\<rparr>
     (new_alerter\<lparr>timestamps := [(''E'', [10, 20, 30])]\<rparr>))
     \<noteq> find_bound (Num 30) [10, 20, 30]"
  using find_range_searches_from_twice by simp

section \<open>Start\<close>

text \<open>
  Claim C8. A second call of \<^verbatim>\<open>start\<close> is to report an error through the callback. On the
  code the error object is built from the name \<^verbatim>\<open>AlerterErrror\<close>, which nothing declares:
  the call throws a \<^verbatim>\<open>ReferenceError\<close> and the callback is never called.
\<close>

theorem second_start_throws:
  "started s \<Longrightarrow> start day_ago s = Throws (ReferenceError ''AlerterErrror'')"
  by (simp add: start_def js_new_def)

theorem second_start_throws_witness:
  "\<exists>s1 rc. start 0 new_alerter = Returns (s1, rc) \<and> started s1
     \<and> start 1 s1 = Throws (ReferenceError ''AlerterErrror'')"
proof -
  have "started (new_alerter\<lparr>started := True\<rparr>)" by simp
  from second_start_throws [OF this, of 1]
  show ?thesis by (simp add: start_def Let_def new_alerter_def)
qed

section \<open>Writing\<close>

lemma stream_write_appends:
  "written (snd (stream_write strm chunk)) = written strm @ [chunk]"
  by (cases "(strm, chunk)" rule: stream_write.cases) auto

text \<open>
  The chunk that \<^verbatim>\<open>_write\<close> builds, \<^verbatim>\<open>data.join("\n") + "\n"\<close>: every entry in decimal,
  each followed by a newline (a lone newline for no entry). Read back line by line it
  gives the entries again.
\<close>

lemma digit_value: "r < 10 \<Longrightarrow> int (of_char (''0123456789'' ! r)) - 48 = int r"
proof -
  assume "r < 10"
  then have "r \<in> set [0..<10]" by simp
  moreover have "[0..<10] = [0, 1, 2, 3, 4, 5, 6, 7, 8, 9 :: nat]" by code_simp
  ultimately have "r \<in> set [0, 1, 2, 3, 4, 5, 6, 7, 8, 9 :: nat]" by simp
  moreover have "\<forall>q \<in> set [0, 1, 2, 3, 4, 5, 6, 7, 8, 9 :: nat].
      int (of_char (''0123456789'' ! q)) - 48 = int q" by simp
  ultimately show ?thesis by blast
qed

lemma digit_in: "r < 10 \<Longrightarrow> ''0123456789'' ! r \<in> set ''0123456789''"
  by (rule nth_mem) simp

lemma digits_chars: "digits n \<noteq> [] \<and> set (digits n) \<subseteq> set ''0123456789''"
proof (induction n rule: digits.induct)
  case (1 n)
  show ?case
  proof (cases "n < 10")
    case True
    then show ?thesis using digit_in [of n] by (subst (1 2) digits.simps) simp
  next
    case False
    have "n mod 10 < 10" by simp
    from digit_in [OF this] 1 [OF False] False show ?thesis
      by (subst (1 2) digits.simps) simp
  qed
qed

lemma digits_value:
  "foldl (\<lambda>a c. 10 * a + (int (of_char c) - 48)) 0 (digits n) = int n"
proof (induction n rule: digits.induct)
  case (1 n)
  show ?case
  proof (cases "n < 10")
    case True
    then show ?thesis using digit_value [of n] by (subst digits.simps) simp
  next
    case False
    have "n mod 10 < 10" by simp
    from digit_value [OF this] 1 [OF False] False show ?thesis
      by (subst digits.simps) (simp add: zdiv_int zmod_int)
  qed
qed

lemma parse_number_string:
  assumes "0 \<le> n"
  shows "parse_decimal (number_string n) = Some n"
proof -
  have ns: "number_string n = digits (nat n)" using assms by (simp add: number_string_def)
  have c: "\<not> (digits (nat n) = [] \<or> (\<exists>c \<in> set (digits (nat n)). c \<notin> set ''0123456789''))"
    using digits_chars [of "nat n"] by blast
  have "parse_decimal (digits (nat n)) =
      Some (foldl (\<lambda>n c. 10 * n + (int (of_char c) - 48)) 0 (digits (nat n)))"
    unfolding parse_decimal_def using c by (rule if_not_P)
  also have "\<dots> = Some (int (nat n))" by (simp only: digits_value)
  finally show ?thesis using assms ns by simp
qed

lemma number_string_no_newline:
  assumes "0 \<le> n"
  shows "CHR 0x0A \<notin> set (number_string n)"
proof -
  have ns: "number_string n = digits (nat n)" using assms by (simp add: number_string_def)
  have "CHR 0x0A \<notin> set ''0123456789''" by simp
  with digits_chars [of "nat n"] have "CHR 0x0A \<notin> set (digits (nat n))" by blast
  with ns show ?thesis by simp
qed

lemma join_lines_Cons:
  "join_lines (n # ns) = number_string n @ [CHR 0x0A] @ (if ns = [] then [] else join_lines ns)"
  by (cases ns) (simp_all add: join_lines_def)

lemma join_lines_concat:
  "join_lines data =
     (if data = [] then [CHR 0x0A] else concat (map (\<lambda>n. number_string n @ [CHR 0x0A]) data))"
proof (induction data)
  case Nil
  then show ?case by (simp add: join_lines_def)
next
  case (Cons n ns)
  then show ?case by (simp add: join_lines_Cons)
qed

lemma split_lines_line:
  "CHR 0x0A \<notin> set l \<Longrightarrow> split_lines (l @ CHR 0x0A # rest) = l # split_lines rest"
  by (induction l) auto

lemma read_back_lines:
  "\<forall>n \<in> set data. 0 \<le> n \<Longrightarrow>
   List.map_filter parse_decimal
     (split_lines (concat (map (\<lambda>n. number_string n @ [CHR 0x0A]) data))) = data"
proof (induction data)
  case Nil
  then show ?case by (simp add: List.map_filter_def parse_decimal_def)
next
  case (Cons n ns)
  then have n: "0 \<le> n" by simp
  from Cons show ?case
    by (simp add: split_lines_line [OF number_string_no_newline [OF n]]
        List.map_filter_simps parse_number_string [OF n])
qed

lemma read_back_join_lines:
  assumes "\<forall>n \<in> set data. 0 \<le> n"
  shows "List.map_filter parse_decimal (split_lines (join_lines data)) = data"
proof (cases "data = []")
  case True
  then show ?thesis by (simp add: join_lines_def List.map_filter_def parse_decimal_def)
next
  case False
  with read_back_lines [OF assms] show ?thesis by (simp add: join_lines_concat)
qed

text \<open>
  Claim C9. For an error type with settings, \<^verbatim>\<open>_write\<close> reports success and does nothing
  when no log path is set; reports failure and does nothing while the stream drains or
  is not open; and otherwise hands the stream one chunk, reports success, and sets the
  draining flag exactly when the stream answers that its buffer is full. The chunk is
  the pending entries joined by newlines: each entry in decimal followed by a newline,
  in their order, so that reading the chunk back line by line yields the entries (for
  timestamps, which are not negative).
\<close>

theorem write_log_contract:
  assumes "map_of (settings s) k = Some es"
  shows "(\<not> log_set es \<longrightarrow> write_log k data s = Returns (True, s))
       \<and> (log_set es \<and> (draining es \<or> stream es = None) \<longrightarrow>
            write_log k data s = Returns (False, s))
       \<and> (log_set es \<and> \<not> draining es \<and> stream es = Some strm \<longrightarrow>
            (\<exists>accepted strm'. stream_write strm (join_lines data) = (accepted, strm')
              \<and> written strm' = written strm @ [join_lines data]
              \<and> write_log k data s =
                  Returns (True, s\<lparr>settings :=
                    AList.update k (es\<lparr>stream := Some strm', draining := \<not> accepted\<rparr>)
                      (settings s)\<rparr>)))
       \<and> join_lines data =
           (if data = [] then [CHR 0x0A]
            else concat (map (\<lambda>n. number_string n @ [CHR 0x0A]) data))
       \<and> ((\<forall>n \<in> set data. 0 \<le> n) \<longrightarrow>
            (\<forall>n \<in> set data. parse_decimal (number_string n) = Some n)
            \<and> List.map_filter parse_decimal (split_lines (join_lines data)) = data)"
proof -
  have cases3: "(\<not> log_set es \<longrightarrow> write_log k data s = Returns (True, s))
       \<and> (log_set es \<and> (draining es \<or> stream es = None) \<longrightarrow>
            write_log k data s = Returns (False, s))
       \<and> (log_set es \<and> \<not> draining es \<and> stream es = Some strm \<longrightarrow>
            (\<exists>accepted strm'. stream_write strm (join_lines data) = (accepted, strm')
              \<and> written strm' = written strm @ [join_lines data]
              \<and> write_log k data s =
                  Returns (True, s\<lparr>settings :=
                    AList.update k (es\<lparr>stream := Some strm', draining := \<not> accepted\<rparr>)
                      (settings s)\<rparr>)))"
    using assms stream_write_appends [of strm "join_lines data"]
    by (auto simp: write_log_def split: prod.splits option.splits)
  have readback: "(\<forall>n \<in> set data. 0 \<le> n) \<longrightarrow>
            (\<forall>n \<in> set data. parse_decimal (number_string n) = Some n)
            \<and> List.map_filter parse_decimal (split_lines (join_lines data)) = data"
    using read_back_join_lines [of data] parse_number_string by blast
  from cases3 join_lines_concat [of data] readback show ?thesis by blast
qed

lemma two_queues_E: "map_of (settings (two_queues es)) ''E'' = Some es"
  by (simp add: two_queues_def ALL_KEY_def DEFAULT_KEY_def)

lemma two_queues_all: "map_of (settings (two_queues es)) ALL_KEY = Some blank_settings"
  by (simp add: two_queues_def)

lemma join_lines_190_200: "join_lines [190, 200] = ''190\<newline>200\<newline>''"
  by (simp add: join_lines_def number_string_def digits.simps)

theorem write_log_contract_witness:
  "write_log ALL_KEY [190, 200] (two_queues closed_log) = Returns (True, two_queues closed_log)
   \<and> write_log ''E'' [200] (two_queues closed_log) = Returns (False, two_queues closed_log)
   \<and> write_log ''E'' [190, 200] (two_queues open_log) =
       Returns (True, (two_queues open_log)\<lparr>settings :=
         AList.update ''E''
           (open_log\<lparr>stream := Some (Stream [''190\<newline>200\<newline>''] []), draining := True\<rparr>)
           (settings (two_queues open_log))\<rparr>)
   \<and> List.map_filter parse_decimal (split_lines ''190\<newline>200\<newline>'') = [190, 200]"
proof -
  have a: "write_log ALL_KEY [190, 200] (two_queues closed_log)
      = Returns (True, two_queues closed_log)"
    using write_log_contract [OF two_queues_all [of closed_log], where data = "[190, 200]"]
    by (simp add: log_set_def blank_settings_def)
  have b: "write_log ''E'' [200] (two_queues closed_log) = Returns (False, two_queues closed_log)"
    using write_log_contract [OF two_queues_E [of closed_log], where data = "[200]"]
    by (simp add: log_set_def closed_log_def blank_settings_def)
  note c0 = write_log_contract [OF two_queues_E [of open_log],
      where data = "[190, 200]" and strm = "Stream [] [False]"]
  have c: "write_log ''E'' [190, 200] (two_queues open_log) =
       Returns (True, (two_queues open_log)\<lparr>settings :=
         AList.update ''E''
           (open_log\<lparr>stream := Some (Stream [''190\<newline>200\<newline>''] []), draining := True\<rparr>)
           (settings (two_queues open_log))\<rparr>)"
    using c0 by (auto simp: log_set_def open_log_def blank_settings_def join_lines_190_200)
  have d: "List.map_filter parse_decimal (split_lines ''190\<newline>200\<newline>'') = [190, 200]"
    using c0 by (simp add: join_lines_190_200)
  from a b c d show ?thesis by simp
qed

section \<open>Thresholds never set\<close>

lemma reaches_Undefined: "reaches n Undefined = False"
  by (cases n) simp_all

lemma check_one_unset:
  assumes "map_of (settings s) k = Some es"
    and "enabled (get_timespan wk es)"
    and "threshold (get_timespan wk es) = Undefined"
  shows "check_one k t wk s = Returns s"
proof -
  obtain rng where "find_range k \<lparr>r_from = Num (t - window wk), r_to = Undefined\<rparr> s = Some rng"
    using find_range_open_returns by blast
  with assms show ?thesis
    by (simp add: check_one_def check_threshold_def reaches_Undefined)
qed

text \<open>What one round can do: nothing, or the alert of its own timespan.\<close>

lemma check_one_cases:
  assumes "map_of (settings s) k = Some es"
  shows "check_one k t w s = Returns s
       \<or> (\<exists>s' snapshot. check_one k t w s = Returns s'
            \<and> map_of (settings s') k =
                Some (set_timespan w ((get_timespan w es)\<lparr>last_alert := Num t\<rparr>) es)
            \<and> trace s' = trace s @
                [Mail k (timespan_name w), SaveState snapshot, Act k (timespan_name w)])"
proof -
  obtain rng where "find_range k \<lparr>r_from = Num (t - window w), r_to = Undefined\<rparr> s = Some rng"
    using find_range_open_returns by blast
  with assms show ?thesis
    by (simp add: check_one_def check_threshold_def Let_def alert_def save_def update_conv')
qed

lemma get_set_other: "w \<noteq> wk \<Longrightarrow> get_timespan wk (set_timespan w x es) = get_timespan wk es"
  by (cases w; cases wk) simp_all

lemma timespan_name_inj: "timespan_name w = timespan_name wk \<Longrightarrow> w = wk"
  by (cases w; cases wk) simp_all

lemma check_one_keeps_quiet:
  assumes "map_of (settings s1) k = Some es1"
    and "enabled (get_timespan wk es1)"
    and "threshold (get_timespan wk es1) = Undefined"
  shows "\<exists>s2 es2. check_one k t w s1 = Returns s2
           \<and> map_of (settings s2) k = Some es2
           \<and> enabled (get_timespan wk es2)
           \<and> threshold (get_timespan wk es2) = Undefined
           \<and> filter (\<lambda>e. e = Mail k (timespan_name wk)) (trace s2)
             = filter (\<lambda>e. e = Mail k (timespan_name wk)) (trace s1)"
proof (cases "w = wk")
  case True
  with check_one_unset [OF assms] assms show ?thesis by simp
next
  case False
  then have ne: "timespan_name w \<noteq> timespan_name wk"
    using timespan_name_inj by blast
  from check_one_cases [OF assms(1), of t w] show ?thesis
  proof
    assume "check_one k t w s1 = Returns s1"
    with assms show ?thesis by simp
  next
    assume "\<exists>s' snapshot. check_one k t w s1 = Returns s'
            \<and> map_of (settings s') k =
                Some (set_timespan w ((get_timespan w es1)\<lparr>last_alert := Num t\<rparr>) es1)
            \<and> trace s' = trace s1 @
                [Mail k (timespan_name w), SaveState snapshot, Act k (timespan_name w)]"
    then obtain s' snapshot where r: "check_one k t w s1 = Returns s'"
      and st: "map_of (settings s') k =
                Some (set_timespan w ((get_timespan w es1)\<lparr>last_alert := Num t\<rparr>) es1)"
      and tr: "trace s' = trace s1 @
                [Mail k (timespan_name w), SaveState snapshot, Act k (timespan_name w)]"
      by blast
    show ?thesis
      using r st tr ne False assms(2,3) by (simp add: get_set_other)
  qed
qed

text \<open>
  Claim C10. For an error type with settings and a window that is enabled while its
  threshold is still \<^verbatim>\<open>undefined\<close>: the round of \<^verbatim>\<open>_check\<close> for that window leaves the
  instance as it is, whatever the history holds, and a whole call of \<^verbatim>\<open>_check\<close> returns
  without sending a mail for that window.
\<close>

theorem unset_threshold_never_alerts:
  assumes "map_of (settings s) k = Some es"
    and "enabled (get_timespan wk es)"
    and "threshold (get_timespan wk es) = Undefined"
  shows "check_one k t wk s = Returns s
       \<and> (\<exists>s'. check k t s = Returns s'
            \<and> filter (\<lambda>e. e = Mail k (timespan_name wk)) (trace s')
              = filter (\<lambda>e. e = Mail k (timespan_name wk)) (trace s))"
proof -
  from check_one_keeps_quiet [OF assms, of t Minute] obtain s1 es1 where
    r1: "check_one k t Minute s = Returns s1" and e1: "map_of (settings s1) k = Some es1"
    and n1: "enabled (get_timespan wk es1)" and u1: "threshold (get_timespan wk es1) = Undefined"
    and t1: "filter (\<lambda>e. e = Mail k (timespan_name wk)) (trace s1)
             = filter (\<lambda>e. e = Mail k (timespan_name wk)) (trace s)"
    by blast
  from check_one_keeps_quiet [OF e1 n1 u1, of t Hour] obtain s2 es2 where
    r2: "check_one k t Hour s1 = Returns s2" and e2: "map_of (settings s2) k = Some es2"
    and n2: "enabled (get_timespan wk es2)" and u2: "threshold (get_timespan wk es2) = Undefined"
    and t2: "filter (\<lambda>e. e = Mail k (timespan_name wk)) (trace s2)
             = filter (\<lambda>e. e = Mail k (timespan_name wk)) (trace s1)"
    by blast
  from check_one_keeps_quiet [OF e2 n2 u2, of t Day] obtain s3 es3 where
    r3: "check_one k t Day s2 = Returns s3"
    and t3: "filter (\<lambda>e. e = Mail k (timespan_name wk)) (trace s3)
             = filter (\<lambda>e. e = Mail k (timespan_name wk)) (trace s2)"
    by blast
  have "check k t s = Returns s3"
    using assms(1) r1 r2 r3 by (simp add: check_def)
  with t1 t2 t3 check_one_unset [OF assms] show ?thesis by simp
qed

lemma no_threshold_settings: "map_of (settings no_threshold) ''i_care'' = Some unset_settings"
  by (simp add: no_threshold_def ALL_KEY_def DEFAULT_KEY_def)

theorem unset_threshold_never_alerts_witness:
  "check_one ''i_care'' 3000 Minute no_threshold = Returns no_threshold
   \<and> (\<exists>s'. check ''i_care'' 3000 no_threshold = Returns s'
        \<and> filter (\<lambda>e. e = Mail ''i_care'' ''minute'') (trace s') = [])"
  using unset_threshold_never_alerts [OF no_threshold_settings, of Minute 3000]
  by (simp add: unset_settings_def blank_settings_def blank_timespan_def no_threshold_def
      new_alerter_def)


section \<open>Flushing\<close>

lemma write_log_result:
  assumes "map_of (settings s) k = Some es"
  shows "\<exists>s1. write_log k data s = Returns (accepts es, s1)
           \<and> timestamps s1 = timestamps s \<and> queued s1 = queued s
           \<and> dom (map_of (settings s1)) = dom (map_of (settings s))
           \<and> (\<forall>k'. k' \<noteq> k \<longrightarrow> map_of (settings s1) k' = map_of (settings s) k')"
  using assms
  by (auto simp: write_log_def accepts_def update_conv' split: prod.splits option.splits)

lemma flush_one_result:
  assumes "map_of (settings s) k = Some es"
  shows "\<exists>s'. flush_one k s = Returns s'
           \<and> dom (map_of (settings s')) = dom (map_of (settings s))
           \<and> (\<forall>k'. k' \<noteq> k \<longrightarrow> map_of (settings s') k' = map_of (settings s) k'
                  \<and> saved_of s' k' = saved_of s k'
                  \<and> map_of (queued s') k' = map_of (queued s) k')
           \<and> saved_of s' k = (if accepts es then saved_of s k @ queued_of s k else saved_of s k)
           \<and> map_of (queued s') k = (if accepts es then None else map_of (queued s) k)"
proof -
  from write_log_result [OF assms, of "queued_of s k"] obtain s1 where
    w: "write_log k (queued_of s k) s = Returns (accepts es, s1)"
    and t: "timestamps s1 = timestamps s" and q: "queued s1 = queued s"
    and d: "dom (map_of (settings s1)) = dom (map_of (settings s))"
    and o: "\<forall>k'. k' \<noteq> k \<longrightarrow> map_of (settings s1) k' = map_of (settings s) k'"
    by blast
  show ?thesis
    using w t q d o
    by (auto simp: flush_one_def saved_of_def queued_of_def update_conv' delete_conv')
qed

lemma flush_one_history:
  assumes "map_of (settings s) k = Some es" and "flush_one k s = Returns s'"
  shows "history s' k' = history s k'"
proof -
  from flush_one_result [OF assms(1)] assms(2) have
    o: "\<forall>k'. k' \<noteq> k \<longrightarrow> saved_of s' k' = saved_of s k' \<and> map_of (queued s') k' = map_of (queued s) k'"
    and a: "saved_of s' k = (if accepts es then saved_of s k @ queued_of s k else saved_of s k)"
    and b: "map_of (queued s') k = (if accepts es then None else map_of (queued s) k)"
    by auto
  show ?thesis
  proof (cases "k' = k")
    case True
    with a b show ?thesis by (simp add: history_def queued_of_def)
  next
    case False
    with o show ?thesis by (simp add: history_def queued_of_def)
  qed
qed

lemma flush_keys_history:
  assumes "set ks \<subseteq> dom (map_of (settings s))"
  shows "\<exists>s'. flush_keys ks s = Returns s'
           \<and> dom (map_of (settings s')) = dom (map_of (settings s))
           \<and> (\<forall>k. history s' k = history s k)"
  using assms
proof (induction ks arbitrary: s)
  case Nil
  then show ?case by simp
next
  case (Cons k ks)
  then obtain es where es: "map_of (settings s) k = Some es" by auto
  from flush_one_result [OF es] obtain s1 where
    f: "flush_one k s = Returns s1" and d: "dom (map_of (settings s1)) = dom (map_of (settings s))"
    by blast
  from Cons.prems d have "set ks \<subseteq> dom (map_of (settings s1))" by simp
  from Cons.IH [OF this] obtain s' where
    r: "flush_keys ks s1 = Returns s'" and d': "dom (map_of (settings s')) = dom (map_of (settings s1))"
    and h: "\<forall>k. history s' k = history s1 k" by blast
  have "\<forall>k'. history s1 k' = history s k'" using flush_one_history [OF es f] by simp
  with f r d d' h show ?case by simp
qed

lemma flush_keys_moves:
  assumes "set ks \<subseteq> dom (map_of (settings s))" and "distinct ks"
  shows "\<exists>s'. flush_keys ks s = Returns s'
           \<and> (\<forall>k. k \<notin> set ks \<longrightarrow> map_of (settings s') k = map_of (settings s) k
                  \<and> saved_of s' k = saved_of s k \<and> map_of (queued s') k = map_of (queued s) k)
           \<and> (\<forall>k es. k \<in> set ks \<and> map_of (settings s) k = Some es \<longrightarrow>
                  saved_of s' k = (if accepts es then saved_of s k @ queued_of s k else saved_of s k)
                  \<and> map_of (queued s') k = (if accepts es then None else map_of (queued s) k))"
  using assms
proof (induction ks arbitrary: s)
  case Nil
  then show ?case by simp
next
  case (Cons k ks)
  then obtain es where es: "map_of (settings s) k = Some es" by auto
  from flush_one_result [OF es] obtain s1 where
    f: "flush_one k s = Returns s1" and d: "dom (map_of (settings s1)) = dom (map_of (settings s))"
    and o: "\<forall>k'. k' \<noteq> k \<longrightarrow> map_of (settings s1) k' = map_of (settings s) k'
                  \<and> saved_of s1 k' = saved_of s k'
                  \<and> map_of (queued s1) k' = map_of (queued s) k'"
    and a: "saved_of s1 k = (if accepts es then saved_of s k @ queued_of s k else saved_of s k)"
    and b: "map_of (queued s1) k = (if accepts es then None else map_of (queued s) k)"
    by blast
  from Cons.prems d have sub: "set ks \<subseteq> dom (map_of (settings s1))" by simp
  from Cons.prems have dist: "distinct ks" and nk: "k \<notin> set ks" by simp_all
  from Cons.IH [OF sub dist] obtain s' where
    r: "flush_keys ks s1 = Returns s'"
    and o': "\<forall>j. j \<notin> set ks \<longrightarrow> map_of (settings s') j = map_of (settings s1) j
                  \<and> saved_of s' j = saved_of s1 j \<and> map_of (queued s') j = map_of (queued s1) j"
    and m': "\<forall>j es. j \<in> set ks \<and> map_of (settings s1) j = Some es \<longrightarrow>
                  saved_of s' j = (if accepts es then saved_of s1 j @ queued_of s1 j else saved_of s1 j)
                  \<and> map_of (queued s') j = (if accepts es then None else map_of (queued s1) j)"
    by blast
  have q1: "\<forall>j. j \<noteq> k \<longrightarrow> queued_of s1 j = queued_of s j"
    using o by (simp add: queued_of_def)
  have "flush_keys (k # ks) s = Returns s'" using f r by simp
  moreover have "\<forall>j. j \<notin> set (k # ks) \<longrightarrow> map_of (settings s') j = map_of (settings s) j
                  \<and> saved_of s' j = saved_of s j \<and> map_of (queued s') j = map_of (queued s) j"
    using o o' by simp
  moreover have "\<forall>j es. j \<in> set (k # ks) \<and> map_of (settings s) j = Some es \<longrightarrow>
                  saved_of s' j = (if accepts es then saved_of s j @ queued_of s j else saved_of s j)
                  \<and> map_of (queued s') j = (if accepts es then None else map_of (queued s) j)"
  proof (intro allI impI)
    fix j es'
    assume j: "j \<in> set (k # ks) \<and> map_of (settings s) j = Some es'"
    show "saved_of s' j = (if accepts es' then saved_of s j @ queued_of s j else saved_of s j)
                  \<and> map_of (queued s') j = (if accepts es' then None else map_of (queued s) j)"
    proof (cases "j = k")
      case True
      with j es have "es' = es" by simp
      with True nk o' a b show ?thesis by simp
    next
      case False
      with j have jin: "j \<in> set ks" by simp
      from False o j have "map_of (settings s1) j = Some es'" by simp
      with m' jin have "saved_of s' j = (if accepts es' then saved_of s1 j @ queued_of s1 j else saved_of s1 j)
                  \<and> map_of (queued s') j = (if accepts es' then None else map_of (queued s1) j)"
        by blast
      with False o q1 show ?thesis by simp
    qed
  qed
  ultimately show ?case by blast
qed

lemma find_range_history:
  "history s' k = history s k \<Longrightarrow> find_range k rng s' = find_range k rng s"
  by (simp add: find_range_def history_def)

text \<open>
  Claim C6. When every queued error type has settings, \<^verbatim>\<open>_flush_queued\<close> returns; for
  every queued error type it either appends the queue to the saved timestamps and
  removes the queue (when \<^verbatim>\<open>_write\<close> reports success) or leaves both as they were (when it
  reports failure); the history of every error type, saved followed by queued, is the
  same before and after, and so is the result of every range query.
\<close>

theorem flush_queued_transparent:
  assumes "fst ` set (queued s) \<subseteq> dom (map_of (settings s))"
    and "distinct (map fst (queued s))"
  shows "\<exists>s'. flush_queued s = Returns s'
           \<and> (\<forall>k. history s' k = history s k)
           \<and> (\<forall>k rng. find_range k rng s' = find_range k rng s)
           \<and> (\<forall>k es. k \<in> fst ` set (queued s) \<and> map_of (settings s) k = Some es \<longrightarrow>
                 (if accepts es
                  then saved_of s' k = saved_of s k @ queued_of s k \<and> map_of (queued s') k = None
                  else saved_of s' k = saved_of s k \<and> map_of (queued s') k = map_of (queued s) k))"
proof -
  let ?ks = "map fst (queued s)"
  have sub: "set ?ks \<subseteq> dom (map_of (settings s))" using assms(1) by simp
  from flush_keys_moves [OF sub assms(2)] obtain s' where
    r: "flush_keys ?ks s = Returns s'"
    and m: "\<forall>k es. k \<in> set ?ks \<and> map_of (settings s) k = Some es \<longrightarrow>
                  saved_of s' k = (if accepts es then saved_of s k @ queued_of s k else saved_of s k)
                  \<and> map_of (queued s') k = (if accepts es then None else map_of (queued s) k)"
    by blast
  from flush_keys_history [OF sub] r have h: "\<forall>k. history s' k = history s k" by auto
  have "\<forall>k rng. find_range k rng s' = find_range k rng s"
    using h find_range_history by blast
  moreover have "flush_queued s = Returns s'" using r by (simp add: flush_queued_def)
  moreover have "\<forall>k es. k \<in> fst ` set (queued s) \<and> map_of (settings s) k = Some es \<longrightarrow>
                 (if accepts es
                  then saved_of s' k = saved_of s k @ queued_of s k \<and> map_of (queued s') k = None
                  else saved_of s' k = saved_of s k \<and> map_of (queued s') k = map_of (queued s) k)"
    using m by auto
  ultimately show ?thesis using h by blast
qed

lemma two_queues_keys:
  "fst ` set (queued (two_queues es)) \<subseteq> dom (map_of (settings (two_queues es)))"
  by (simp add: two_queues_def ALL_KEY_def DEFAULT_KEY_def)

lemma two_queues_distinct: "distinct (map fst (queued (two_queues es)))"
  by (simp add: two_queues_def ALL_KEY_def)

theorem flush_queued_transparent_witness:
  "\<exists>s'. flush_queued (two_queues closed_log) = Returns s'
     \<and> history s' ALL_KEY = [190, 200] \<and> history s' ''E'' = [200]
     \<and> saved_of s' ALL_KEY = [190, 200] \<and> map_of (queued s') ALL_KEY = None
     \<and> saved_of s' ''E'' = [] \<and> map_of (queued s') ''E'' = Some [200]"
proof -
  from flush_queued_transparent [OF two_queues_keys two_queues_distinct, of closed_log]
  obtain s' where r: "flush_queued (two_queues closed_log) = Returns s'"
    and h: "\<forall>k. history s' k = history (two_queues closed_log) k"
    and m: "\<forall>k es. k \<in> fst ` set (queued (two_queues closed_log))
                 \<and> map_of (settings (two_queues closed_log)) k = Some es \<longrightarrow>
                 (if accepts es
                  then saved_of s' k = saved_of (two_queues closed_log) k @ queued_of (two_queues closed_log) k
                    \<and> map_of (queued s') k = None
                  else saved_of s' k = saved_of (two_queues closed_log) k
                    \<and> map_of (queued s') k = map_of (queued (two_queues closed_log)) k)"
    by blast
  have a: "accepts blank_settings" "\<not> accepts closed_log"
    by (simp_all add: accepts_def log_set_def blank_settings_def closed_log_def)
  have "ALL_KEY \<in> fst ` set (queued (two_queues closed_log))"
    and "''E'' \<in> fst ` set (queued (two_queues closed_log))"
    by (simp_all add: two_queues_def)
  with m two_queues_all [of closed_log] two_queues_E [of closed_log] a
  have "saved_of s' ALL_KEY = saved_of (two_queues closed_log) ALL_KEY @ queued_of (two_queues closed_log) ALL_KEY
      \<and> map_of (queued s') ALL_KEY = None"
    and "saved_of s' ''E'' = saved_of (two_queues closed_log) ''E''
      \<and> map_of (queued s') ''E'' = map_of (queued (two_queues closed_log)) ''E''"
    by metis+
  with r h show ?thesis
    by (simp add: history_def saved_of_def queued_of_def two_queues_def new_alerter_def
        ALL_KEY_def)
qed

section \<open>Recovery\<close>







section \<open>Occurrences of an error type without settings\<close>

lemma write_log_keeps_keys:
  "write_log k data s = Returns (ok, s1) \<Longrightarrow> dom (map_of (settings s1)) = dom (map_of (settings s))"
  by (auto simp: write_log_def update_conv' split: option.splits if_splits prod.splits)

lemma flush_one_keeps_keys:
  assumes "flush_one k s = Returns s'"
  shows "dom (map_of (settings s')) = dom (map_of (settings s))"
proof -
  from assms obtain ok s1 where w: "write_log k (queued_of s k) s = Returns (ok, s1)"
    and s': "settings s' = settings s1"
    by (cases "write_log k (queued_of s k) s") (auto simp: flush_one_def split: if_splits)
  from write_log_keeps_keys [OF w] s' show ?thesis by simp
qed

lemma flush_keys_keeps_keys:
  "flush_keys ks s = Returns s' \<Longrightarrow> dom (map_of (settings s')) = dom (map_of (settings s))"
proof (induction ks arbitrary: s)
  case Nil
  then show ?case by simp
next
  case (Cons k ks)
  from Cons.prems obtain s1 where f: "flush_one k s = Returns s1"
    and r: "flush_keys ks s1 = Returns s'"
    by (cases "flush_one k s") auto
  from flush_one_keeps_keys [OF f] Cons.IH [OF r] show ?case by simp
qed

lemma check_one_keeps_keys:
  "check_one k t w s = Returns s' \<Longrightarrow> dom (map_of (settings s')) = dom (map_of (settings s))"
  by (auto simp: check_one_def check_threshold_def Let_def alert_def save_def update_conv'
      split: option.splits if_splits)

lemma check_keys_keeps_keys:
  "check_keys ws k t s = Returns s' \<Longrightarrow> dom (map_of (settings s')) = dom (map_of (settings s))"
proof (induction ws arbitrary: s)
  case Nil
  then show ?case by simp
next
  case (Cons w ws)
  from Cons.prems obtain s1 where f: "check_one k t w s = Returns s1"
    and r: "check_keys ws k t s1 = Returns s'"
    by (cases "check_one k t w s") auto
  from check_one_keeps_keys [OF f] Cons.IH [OF r] show ?case by simp
qed

lemma check_keeps_keys:
  assumes "check k t s = Returns s'"
  shows "dom (map_of (settings s')) = dom (map_of (settings s))"
proof -
  from assms have "check_keys [Minute, Hour, Day] k t s = Returns s'"
    by (simp add: check_def split: option.splits)
  then show ?thesis by (rule check_keys_keeps_keys)
qed

lemma tell_internal_keeps_keys:
  assumes "tell_internal k t s = Returns s'"
  shows "dom (map_of (settings s')) = dom (map_of (settings s))"
proof -
  define s1 where "s1 = (case map_of (queued s) k of
                  Some q \<Rightarrow> s\<lparr>queued := AList.update k (q @ [t]) (queued s)\<rparr>
                | None \<Rightarrow> s\<lparr>queued := AList.update k [t] (queued s)\<rparr>)"
  have d1: "settings s1 = settings s" by (simp add: s1_def split: option.splits)
  from assms have r: "and_then (flush_queued s1) (check k t) = Returns s'"
    by (simp add: tell_internal_def s1_def)
  then obtain s2 where f: "flush_queued s1 = Returns s2" and c: "check k t s2 = Returns s'"
    by (cases "flush_queued s1") auto
  from f have "flush_keys (map fst (queued s1)) s1 = Returns s2"
    by (simp add: flush_queued_def)
  from flush_keys_keeps_keys [OF this] check_keeps_keys [OF c] d1 show ?thesis by simp
qed

text \<open>
  Claim C2. The first occurrence of an error type that was never configured is to create
  its settings and be processed without an error. On the code \<^verbatim>\<open>tell\<close> never creates
  settings (only \<^verbatim>\<open>_one\<close> does): for an error object whose constructor name has no settings
  the call cannot return, since reading \<^verbatim>\<open>.watch\<close> of the missing settings throws.
\<close>

theorem tell_unconfigured_never_returns:
  assumes "map_of (settings s) name = None"
  shows "tell (ErrorObject name) current_time s \<noteq> Returns s'"
proof
  assume r: "tell (ErrorObject name) current_time s = Returns s'"
  define first where "first = (case map_of (settings s) ALL_KEY of
             None \<Rightarrow> Throws TypeError
           | Some es \<Rightarrow> if watch es then tell_internal ALL_KEY current_time s else Returns s)"
  define second where "second = (\<lambda>s1. case map_of (settings s1) (key (ErrorObject name)) of
               None \<Rightarrow> Throws TypeError
             | Some es \<Rightarrow>
                 if watch es then tell_internal (key (ErrorObject name)) current_time s1
                 else Returns s1)"
  from r have "and_then first second = Returns s'"
    by (simp add: tell_def first_def second_def)
  then obtain s1 where f: "first = Returns s1" and g: "second s1 = Returns s'"
    by (cases first) auto
  have "dom (map_of (settings s1)) = dom (map_of (settings s))"
  proof (cases "map_of (settings s) ALL_KEY")
    case None
    with f show ?thesis by (simp add: first_def)
  next
    case (Some es)
    show ?thesis
    proof (cases "watch es")
      case True
      with f Some have "tell_internal ALL_KEY current_time s = Returns s1"
        by (simp add: first_def)
      then show ?thesis by (rule tell_internal_keeps_keys)
    next
      case False
      with f Some show ?thesis by (simp add: first_def)
    qed
  qed
  with assms have "map_of (settings s1) name = None" by (metis domIff)
  with g show False by (simp add: second_def)
qed

theorem tell_unconfigured_never_returns_witness:
  "map_of (settings new_alerter) ''RangeError'' = None
   \<and> tell (ErrorObject ''RangeError'') 1000 new_alerter = Throws TypeError
   \<and> map_of (settings (one (ErrorObject ''RangeError'') new_alerter)) ''RangeError''
       = Some blank_settings"
proof -
  have n: "map_of (settings new_alerter) ''RangeError'' = None"
    by (simp add: new_alerter_def ALL_KEY_def DEFAULT_KEY_def)
  have "tell (ErrorObject ''RangeError'') 1000 new_alerter = Throws TypeError"
    by code_simp
  moreover have "map_of (settings (one (ErrorObject ''RangeError'') new_alerter)) ''RangeError''
       = Some blank_settings"
    by (simp add: one_def n update_conv')
  ultimately show ?thesis
    using n tell_unconfigured_never_returns [OF n, of 1000] by simp
qed

section \<open>The lower bound on a non-empty sequence\<close>

lemma scan_back_first:
  assumes "int i \<le> m" and "m < int (length ts)"
    and "\<forall>j. i \<le> j \<and> int j \<le> m \<longrightarrow> ts ! j = t"
    and "js_index ts (int i - 1) \<noteq> Num t"
  shows "scan_back (Num t) ts m = Some (int i)"
  using assms
proof (induction "nat (m - int i)" arbitrary: m rule: less_induct)
  case less
  show ?case
  proof (cases "m = int i")
    case True
    with less.prems(4) show ?thesis by (subst scan_back.simps) simp
  next
    case False
    with less.prems(1) have lt: "int i < m" by simp
    then have idx: "js_index ts (m - 1) = Num (ts ! nat (m - 1))"
      using less.prems(2) by (simp add: js_index_def)
    have "i \<le> nat (m - 1) \<and> int (nat (m - 1)) \<le> m" using lt by simp
    with less.prems(3) have eq: "ts ! nat (m - 1) = t" by blast
    have "scan_back (Num t) ts (m - 1) = Some (int i)"
    proof (rule less.hyps)
      show "nat (m - 1 - int i) < nat (m - int i)" using lt by simp
      show "int i \<le> m - 1" using lt by simp
      show "m - 1 < int (length ts)" using less.prems(2) by simp
      show "\<forall>j. i \<le> j \<and> int j \<le> m - 1 \<longrightarrow> ts ! j = t" using less.prems(3) by simp
      show "js_index ts (int i - 1) \<noteq> Num t" by (rule less.prems(4))
    qed
    with idx eq show ?thesis by (subst scan_back.simps) simp
  qed
qed

lemma find_bound_from_lower_bound:
  assumes "sorted ts"
    and "\<forall>j < i. ts ! j < t"
    and "\<forall>j. i \<le> j \<and> j < length ts \<longrightarrow> t \<le> ts ! j"
    and "ts \<noteq> []" and "ts ! 0 < t" and "t \<le> ts ! (length ts - 1)"
    and "0 \<le> left" and "left \<le> int i" and "int i \<le> right" and "right \<le> int (length ts) - 1"
  shows "find_bound_from (Num t) ts left right = Some (Num (int i))"
  using assms(7-10)
proof (induction "nat (right - left)" arbitrary: left right rule: less_induct)
  case less
  have n: "0 < length ts" using assms(4) by simp
  have first: "\<not> js_le (Num t) (js_index ts 0)"
    using n assms(5) by (simp add: js_index_def)
  have last: "\<not> js_gt (Num t) (js_index ts (int (length ts) - 1))"
    using n assms(6) by (simp add: js_index_def nat_diff_distrib')
  have i0: "0 < i"
  proof (rule ccontr)
    assume "\<not> 0 < i"
    then have "i \<le> 0 \<and> 0 < length ts" using n by simp
    with assms(3) have "t \<le> ts ! 0" by blast
    with assms(5) show False by simp
  qed
  show ?case
  proof (cases "left = right")
    case True
    with less.prems have "left = int i" by simp
    with True first last show ?thesis by (subst find_bound_from.simps) simp
  next
    case False
    with less.prems have lt: "left < right" by simp
    define middle where "middle = (right - left) div 2 + left"
    have m: "left \<le> middle" "middle < right" using lt by (auto simp: middle_def)
    then have mr: "0 \<le> middle" "middle < int (length ts)" using less.prems by auto
    then have idx: "js_index ts middle = Num (ts ! nat middle)" by (simp add: js_index_def)
    have nm: "nat middle < length ts" using mr by simp
    consider (hit) "ts ! nat middle = t" | (above) "ts ! nat middle < t" | (below) "t < ts ! nat middle"
      by linarith
    then show ?thesis
    proof cases
      case hit
      have im: "i \<le> nat middle" using assms(2) hit by (metis leI less_irrefl)
      have run: "\<forall>j. i \<le> j \<and> int j \<le> middle \<longrightarrow> ts ! j = t"
      proof (intro allI impI)
        fix j assume j: "i \<le> j \<and> int j \<le> middle"
        then have "j \<le> nat middle" by linarith
        with assms(1) nm have "ts ! j \<le> ts ! nat middle" by (simp add: sorted_nth_mono)
        moreover have "t \<le> ts ! j" using assms(3) j nm \<open>j \<le> nat middle\<close> by simp
        ultimately show "ts ! j = t" using hit by simp
      qed
      have before: "js_index ts (int i - 1) \<noteq> Num t"
      proof -
        have "i - 1 < i" using i0 by simp
        with assms(2) have "ts ! (i - 1) < t" by blast
        moreover have "js_index ts (int i - 1) = Num (ts ! (i - 1))"
          using i0 im nm by (simp add: js_index_def nat_diff_distrib')
        ultimately show ?thesis by simp
      qed
      have "scan_back (Num t) ts middle = Some (int i)"
        using im mr run before by (intro scan_back_first) auto
      with first last False idx hit show ?thesis
        by (subst find_bound_from.simps) (simp add: Let_def middle_def [symmetric])
    next
      case above
      have "\<not> i \<le> nat middle" using assms(3) above nm by (metis not_le)
      then have mi: "middle + 1 \<le> int i" using mr by linarith
      have "find_bound_from (Num t) ts (middle + 1) right = Some (Num (int i))"
        using m mi less.prems mr by (intro less.hyps) auto
      with first last False idx above show ?thesis
        by (subst find_bound_from.simps) (simp add: Let_def middle_def [symmetric])
    next
      case below
      have "\<not> nat middle < i" using assms(2) below by (metis not_less_iff_gr_or_eq)
      then have mi: "int i \<le> middle" using mr by linarith
      have "find_bound_from (Num t) ts left middle = Some (Num (int i))"
        using m mi less.prems mr by (intro less.hyps) auto
      with first last False idx below show ?thesis
        by (subst find_bound_from.simps) (simp add: Let_def middle_def [symmetric])
    qed
  qed
qed

lemma find_bound_index:
  assumes "sorted ts" and "ts \<noteq> []"
  shows "\<exists>i. find_bound (Num t) ts = Some (Num (int i)) \<and> i \<le> length ts
           \<and> (\<forall>j < i. ts ! j < t)
           \<and> (\<forall>j. i \<le> j \<and> j < length ts \<longrightarrow> t \<le> ts ! j)"
proof -
  have n: "0 < length ts" using assms(2) by simp
  consider (low) "t \<le> ts ! 0" | (high) "ts ! (length ts - 1) < t"
    | (mid) "ts ! 0 < t" "t \<le> ts ! (length ts - 1)"
    by linarith
  then show ?thesis
  proof cases
    case low
    have "find_bound (Num t) ts = Some (Num (int 0))"
      using low n by (simp add: find_bound_def find_bound_from.simps js_index_def)
    moreover have "\<forall>j. 0 \<le> j \<and> j < length ts \<longrightarrow> t \<le> ts ! j"
      using low assms(1) by (metis le0 order_trans sorted_nth_mono)
    ultimately show ?thesis by (intro exI [of _ 0]) simp
  next
    case high
    then have "\<not> t \<le> ts ! 0"
      using assms(1) n by (metis diff_less le0 less_le_not_le order_trans sorted_nth_mono zero_less_one)
    with high have "find_bound (Num t) ts = Some (Num (int (length ts)))"
      using n by (simp add: find_bound_def find_bound_from.simps js_index_def nat_diff_distrib')
    moreover have "\<forall>j < length ts. ts ! j < t"
    proof (intro allI impI)
      fix j assume "j < length ts"
      then have "ts ! j \<le> ts ! (length ts - 1)"
        using assms(1) n by (intro sorted_nth_mono) auto
      with high show "ts ! j < t" by simp
    qed
    ultimately show ?thesis by (intro exI [of _ "length ts"]) simp
  next
    case mid
    define i where "i = length (takeWhile (\<lambda>x. x < t) ts)"
    have below: "\<forall>j < i. ts ! j < t"
    proof (intro allI impI)
      fix j assume j: "j < i"
      then have "takeWhile (\<lambda>x. x < t) ts ! j \<in> set (takeWhile (\<lambda>x. x < t) ts)"
        by (simp add: i_def)
      then have "takeWhile (\<lambda>x. x < t) ts ! j < t" by (rule set_takeWhileD [THEN conjunct2])
      with j show "ts ! j < t" by (simp add: i_def takeWhile_nth)
    qed
    have il: "i < length ts"
    proof (rule ccontr)
      assume "\<not> i < length ts"
      then have "length ts - 1 < i" using n by arith
      with below mid(2) show False by (metis not_le)
    qed
    then have at: "t \<le> ts ! i"
      using nth_length_takeWhile [of "\<lambda>x. x < t" ts] by (simp add: i_def)
    have above: "\<forall>j. i \<le> j \<and> j < length ts \<longrightarrow> t \<le> ts ! j"
    proof (intro allI impI)
      fix j assume "i \<le> j \<and> j < length ts"
      with assms(1) have "ts ! i \<le> ts ! j" by (simp add: sorted_nth_mono)
      with at show "t \<le> ts ! j" by simp
    qed
    have "find_bound_from (Num t) ts 0 (int (length ts) - 1) = Some (Num (int i))"
      using assms below above mid il by (intro find_bound_from_lower_bound) auto
    with below above il show ?thesis
      by (intro exI [of _ i]) (simp add: find_bound_def)
  qed
qed

text \<open>
  Claim C4, as amended. On every non-empty sequence in non-decreasing order, \<^verbatim>\<open>_find_bound\<close>
  with a numeric target returns the lower bound: an index \<open>i\<close> with every element before
  it below the target and every element from it on at least the target. It is the
  length of the sequence when every element is below the target, and when the target
  occurs, also several times, it is the first index that holds it.
\<close>

theorem find_bound_lower_bound:
  assumes "sorted ts" and "ts \<noteq> []"
  shows "\<exists>i. find_bound (Num t) ts = Some (Num (int i)) \<and> i \<le> length ts
           \<and> (\<forall>j < i. ts ! j < t)
           \<and> (\<forall>j. i \<le> j \<and> j < length ts \<longrightarrow> t \<le> ts ! j)
           \<and> ((\<forall>x \<in> set ts. x < t) \<longrightarrow> i = length ts)
           \<and> (t \<in> set ts \<longrightarrow> i < length ts \<and> ts ! i = t)"
proof -
  from find_bound_index [OF assms, of t] obtain i where
    r: "find_bound (Num t) ts = Some (Num (int i))" and le: "i \<le> length ts"
    and b: "\<forall>j < i. ts ! j < t"
    and a: "\<forall>j. i \<le> j \<and> j < length ts \<longrightarrow> t \<le> ts ! j"
    by blast
  have all_below: "(\<forall>x \<in> set ts. x < t) \<longrightarrow> i = length ts"
  proof
    assume below: "\<forall>x \<in> set ts. x < t"
    show "i = length ts"
    proof (rule ccontr)
      assume "i \<noteq> length ts"
      with le have il: "i < length ts" by simp
      with a have "t \<le> ts ! i" by simp
      moreover from il below have "ts ! i < t" by simp
      ultimately show False by simp
    qed
  qed
  have hit: "t \<in> set ts \<longrightarrow> i < length ts \<and> ts ! i = t"
  proof
    assume "t \<in> set ts"
    then obtain j where j: "j < length ts" "ts ! j = t" by (auto simp: in_set_conv_nth)
    have ij: "i \<le> j"
    proof (rule ccontr)
      assume "\<not> i \<le> j"
      with b have "ts ! j < t" by simp
      with j show False by simp
    qed
    with j have il: "i < length ts" by simp
    with a have "t \<le> ts ! i" by simp
    moreover from assms(1) ij j have "ts ! i \<le> t" by (auto dest: sorted_nth_mono)
    ultimately show "i < length ts \<and> ts ! i = t" using il by simp
  qed
  from r le b a all_below hit show ?thesis by blast
qed

theorem find_bound_lower_bound_witness:
  "find_bound (Num 5) [1, 5, 5, 5, 7] = Some (Num 1)"
proof -
  have "sorted [1, 5, 5, 5, 7 :: int]" and "[1, 5, 5, 5, 7 :: int] \<noteq> []" by simp_all
  from find_bound_lower_bound [OF this, of 5] obtain i where
    r: "find_bound (Num 5) [1, 5, 5, 5, 7] = Some (Num (int i))"
    and b: "\<forall>j < i. [1, 5, 5, 5, 7 :: int] ! j < 5"
    and a: "\<forall>j. i \<le> j \<and> j < length [1, 5, 5, 5, 7 :: int] \<longrightarrow> 5 \<le> [1, 5, 5, 5, 7 :: int] ! j"
    by blast
  have "\<not> i \<le> 0" using a by auto
  moreover have "\<not> 1 < i" using b by auto
  ultimately have "i = 1" by simp
  with r show ?thesis by simp
qed

text \<open>
  The claim as stated also covers the empty sequence and gives 0 for it. There every
  comparison with \<^verbatim>\<open>timestamps[0]\<close> is false, no \<^verbatim>\<open>return\<close> is reached, and the result is
  \<^verbatim>\<open>undefined\<close>.
\<close>

theorem find_bound_empty_counterexample:
  "find_bound (Num 5) [] = Some Undefined \<and> find_bound (Num 5) [] \<noteq> Some (Num 0)"
  by (simp add: find_bound_def find_bound_from.simps js_index_def)

text \<open>
  No call made through \<^verbatim>\<open>tell\<close> searches an empty sequence: every range query follows a
  push, so the history that \<^verbatim>\<open>_check\<close>, and through it \<^verbatim>\<open>_find_range\<close> and \<^verbatim>\<open>_find_bound\<close>,
  sees in \<^verbatim>\<open>_tell\<close> holds the timestamp just queued.
\<close>

lemma flush_one_returns_history:
  assumes "flush_one k s = Returns s'"
  shows "history s' j = history s j"
proof (cases "map_of (settings s) k")
  case None
  with assms show ?thesis by (simp add: flush_one_def write_log_def)
next
  case (Some es)
  from flush_one_history [OF Some assms] show ?thesis .
qed

lemma flush_keys_returns_history:
  "flush_keys ks s = Returns s' \<Longrightarrow> history s' j = history s j"
proof (induction ks arbitrary: s)
  case Nil
  then show ?case by simp
next
  case (Cons k ks)
  from Cons.prems obtain s1 where f: "flush_one k s = Returns s1"
    and r: "flush_keys ks s1 = Returns s'"
    by (cases "flush_one k s") auto
  from flush_one_returns_history [OF f] Cons.IH [OF r] show ?case by simp
qed

lemma check_sees_pushed_timestamp:
  assumes "flush_queued
             (case map_of (queued s) k of
                Some q \<Rightarrow> s\<lparr>queued := AList.update k (q @ [t]) (queued s)\<rparr>
              | None \<Rightarrow> s\<lparr>queued := AList.update k [t] (queued s)\<rparr>) = Returns s2"
  shows "history s2 k \<noteq> [] \<and> t \<in> set (history s2 k)"
proof -
  define s1 where "s1 = (case map_of (queued s) k of
                Some q \<Rightarrow> s\<lparr>queued := AList.update k (q @ [t]) (queued s)\<rparr>
              | None \<Rightarrow> s\<lparr>queued := AList.update k [t] (queued s)\<rparr>)"
  have "t \<in> set (queued_of s1 k)"
    by (simp add: s1_def queued_of_def update_conv' split: option.splits)
  then have "t \<in> set (history s1 k)" by (simp add: history_def)
  moreover from assms have "flush_keys (map fst (queued s1)) s1 = Returns s2"
    by (simp add: flush_queued_def s1_def)
  then have "history s2 k = history s1 k" by (rule flush_keys_returns_history)
  ultimately show ?thesis by auto
qed

end
